theory Spec2Isabelle
  imports Main
begin

section \<open>The event-source broker of server.go\<close>

text \<open>
  The broker of \<^verbatim>\<open>eventsource/server.go\<close> is one goroutine, \<^verbatim>\<open>Server.run\<close>, that owns two
  maps (channel name to set of subscriptions, channel name to repository) and serves five
  kinds of requests from a \<^verbatim>\<open>select\<close>. Every other goroutine (HTTP handlers, replay
  dispatchers, publishers) talks to it through Go channels. The embedding keeps that shape:
  Go channels are explicit queues with a capacity and a closed flag, each \<^verbatim>\<open>case\<close> body of
  the \<^verbatim>\<open>select\<close> is a function on the server state, and the runtime failures of Go channels
  (sending on or closing a closed channel, a send nobody will ever receive) are values.
\<close>

subsection \<open>Data\<close>

text \<open>
  Modelled from the spec: the \<^verbatim>\<open>Event\<close> interface (an identifier usable as a resume token,
  an event name, a payload) is declared outside \<^verbatim>\<open>server.go\<close>; \<^verbatim>\<open>comment\<close> is the struct of
  \<^verbatim>\<open>server.go\<close>. Both travel through a subscription's queue as \<^verbatim>\<open>interface{}\<close>.
\<close>

datatype eventOrComment =
    Event string string string
  | Comment string

text \<open>
  \<^verbatim>\<open>type subscription struct { channel, lastEventID string; out chan interface{} }\<close>.
  The broker keys its sets by \<^verbatim>\<open>*subscription\<close>; field \<open>out\<close> is the address of the Go
  channel the handler made for this subscription, so two subscriptions made by two handler
  calls differ in \<open>out\<close>.
\<close>

record subscription =
  channel :: string
  lastEventID :: string
  out :: nat

text \<open>The state of one \<^verbatim>\<open>chan interface{}\<close>: buffered items (oldest first), capacity, closed.\<close>

record queue =
  buf :: "eventOrComment list"
  cap :: nat
  closed :: bool

record outbound =
  channels :: "string list"
  eventOrComment :: eventOrComment

text \<open>
  Modelled from the spec: the \<^verbatim>\<open>Repository\<close> interface is declared outside \<^verbatim>\<open>server.go\<close>;
  \<^verbatim>\<open>Replay(channel, id)\<close> yields a lazy, finite sequence of items, here the list of them.
\<close>

type_synonym repository = "string \<Rightarrow> string \<Rightarrow> eventOrComment list"

record registration =
  reg_channel :: string
  repository :: repository

text \<open>The three ways the Go runtime stops a goroutine of this file.\<close>

datatype fault =
    SendOnClosed
  | CloseOfClosed
  | BlockedForever

text \<open>
  The server: the configuration fields, the locals \<open>subs\<close> and \<open>repos\<close> of \<^verbatim>\<open>run\<close>, the
  contents of the buffered channel \<^verbatim>\<open>srv.unregister\<close>, the heap of subscription queues
  (\<open>chans\<close>, with \<open>next_chan\<close> the next address \<^verbatim>\<open>make\<close> hands out), the replay goroutines
  started so far with the items each still has to send, whether \<^verbatim>\<open>run\<close> has returned, and
  \<^verbatim>\<open>isClosed\<close>.
\<close>

record server =
  ReplayAll :: bool
  BufferSize :: nat
  subs :: "string \<rightharpoonup> subscription set"
  repos :: "string \<rightharpoonup> repository"
  unregister :: "subscription list"
  chans :: "nat \<Rightarrow> queue"
  next_chan :: nat
  replays :: "(eventOrComment list \<times> subscription) list"
  stopped :: bool
  isClosed :: bool

text \<open>\<^verbatim>\<open>unregister: make(chan *subscription, 2)\<close>\<close>

definition unregister_cap :: nat where
  "unregister_cap = 2"

definition make_chan :: "nat \<Rightarrow> queue" where
  "make_chan n = \<lparr>buf = [], cap = n, closed = False\<rparr>"

definition NewServer :: server where
  "NewServer =
     \<lparr>ReplayAll = False, BufferSize = 128, subs = Map.empty, repos = Map.empty,
      unregister = [], chans = (\<lambda>_. make_chan 0), next_chan = 0, replays = [],
      stopped = False, isClosed = False\<rparr>"

subsection \<open>Go channel operations\<close>

text \<open>
  A send \<^verbatim>\<open>ch <- v\<close> on a buffered channel: it panics when the channel is closed, it
  proceeds when the buffer has room, and otherwise it cannot proceed now. What "cannot
  proceed" means is the caller's: inside \<^verbatim>\<open>select { case ch <- v: default: }\<close> the default
  branch runs, a plain send parks the goroutine until a reader makes room. (A reader
  already parked on an unbuffered channel is not represented: a queue of capacity 0 is
  always full.)
\<close>

datatype 'a attempt =
    Proceed 'a
  | Wait
  | Crash fault

definition chan_send :: "eventOrComment \<Rightarrow> queue \<Rightarrow> queue attempt" where
  "chan_send v q =
     (if closed q then Crash SendOnClosed
      else if length (buf q) < cap q then Proceed (q\<lparr>buf := buf q @ [v]\<rparr>)
      else Wait)"

text \<open>\<^verbatim>\<open>close(ch)\<close> panics on a channel that is already closed.\<close>

definition chan_close :: "queue \<Rightarrow> fault + queue" where
  "chan_close q = (if closed q then Inl CloseOfClosed else Inr (q\<lparr>closed := True\<rparr>))"

text \<open>
  A receive \<^verbatim>\<open>v, ok := <-ch\<close>: the oldest buffered item if there is one (also after the
  channel was closed), otherwise \<open>ok = false\<close> on a closed channel, otherwise it waits.
\<close>

datatype recv =
    Item eventOrComment queue
  | EndOfStream
  | Empty

definition chan_recv :: "queue \<Rightarrow> recv" where
  "chan_recv q =
     (case buf q of
        v # vs \<Rightarrow> Item v (q\<lparr>buf := vs\<rparr>)
      | [] \<Rightarrow> if closed q then EndOfStream else Empty)"

subsection \<open>The cases of \<^verbatim>\<open>Server.run\<close>\<close>

text \<open>\<^verbatim>\<open>subs[c]\<close>: a missing key reads as the nil map, which ranges over nothing.\<close>

definition members :: "server \<Rightarrow> string \<Rightarrow> subscription set" where
  "members srv c = (case subs srv c of None \<Rightarrow> {} | Some S \<Rightarrow> S)"

text \<open>\<^verbatim>\<open>case reg := <-srv.registrations: repos[reg.channel] = reg.repository\<close>\<close>

definition handle_registration :: "registration \<Rightarrow> server \<Rightarrow> server" where
  "handle_registration reg srv =
     srv\<lparr>repos := (repos srv)(reg_channel reg \<mapsto> repository reg)\<rparr>"

text \<open>
  \<^verbatim>\<open>case sub := <-srv.unregister: delete(subs[sub.channel], sub)\<close>.
  Deleting from the nil map of an unknown channel does nothing; the inner map of a known
  channel stays in \<open>subs\<close> when it becomes empty.
\<close>

definition handle_unregister :: "subscription \<Rightarrow> server \<Rightarrow> server" where
  "handle_unregister sub srv =
     (case subs srv (channel sub) of
        None \<Rightarrow> srv
      | Some S \<Rightarrow> srv\<lparr>subs := (subs srv)(channel sub \<mapsto> S - {sub})\<rparr>)"

text \<open>
  The body of the inner loop of the publish case, for one subscription \<open>s\<close>:
  \<^verbatim>\<open>select { case s.out <- pub.eventOrComment: default: srv.unregister <- s; close(s.out) }\<close>.
  The send into \<^verbatim>\<open>srv.unregister\<close> is a plain send by the only goroutine that ever receives
  from that channel, so with the buffer full it never returns.
\<close>

definition deliver :: "eventOrComment \<Rightarrow> subscription \<Rightarrow> server \<Rightarrow> fault + server" where
  "deliver ev s srv =
     (case chan_send ev (chans srv (out s)) of
        Crash f \<Rightarrow> Inl f
      | Proceed q \<Rightarrow> Inr (srv\<lparr>chans := (chans srv)(out s := q)\<rparr>)
      | Wait \<Rightarrow>
          if unregister_cap \<le> length (unregister srv) then Inl BlockedForever
          else
            (let srv1 = srv\<lparr>unregister := unregister srv @ [s]\<rparr> in
             case chan_close (chans srv1 (out s)) of
               Inl f \<Rightarrow> Inl f
             | Inr q \<Rightarrow> Inr (srv1\<lparr>chans := (chans srv1)(out s := q)\<rparr>)))"

text \<open>
  \<^verbatim>\<open>for s := range subs[c] { ... }\<close>. Go ranges over a map in an unspecified order that
  may differ from one loop to the next, so the order of each visit is an argument: a list
  that \<open>ranges\<close> the set.
\<close>

fun fanout :: "eventOrComment \<Rightarrow> subscription list \<Rightarrow> server \<Rightarrow> fault + server" where
  "fanout ev [] srv = Inr srv"
| "fanout ev (s # ss) srv =
     (case deliver ev s srv of Inl f \<Rightarrow> Inl f | Inr srv' \<Rightarrow> fanout ev ss srv')"

definition ranges :: "subscription set \<Rightarrow> subscription list \<Rightarrow> bool" where
  "ranges S xs \<longleftrightarrow> distinct xs \<and> set xs = S"

text \<open>
  \<^verbatim>\<open>case pub := <-srv.pub: for _, c := range pub.channels { for s := range subs[c] ... }\<close>.
  \<open>visits\<close> holds, for each entry of \<^verbatim>\<open>pub.channels\<close> in turn, the order in which its
  subscriptions are visited. No visit changes \<open>subs\<close>.
\<close>

fun handle_pub :: "eventOrComment \<Rightarrow> subscription list list \<Rightarrow> server \<Rightarrow> fault + server" where
  "handle_pub ev [] srv = Inr srv"
| "handle_pub ev (v # vs) srv =
     (case fanout ev v srv of Inl f \<Rightarrow> Inl f | Inr srv' \<Rightarrow> handle_pub ev vs srv')"

definition pub_visits :: "server \<Rightarrow> string list \<Rightarrow> subscription list list \<Rightarrow> bool" where
  "pub_visits srv cs visits \<longleftrightarrow> list_all2 (\<lambda>c v. ranges (members srv c) v) cs visits"

text \<open>
  \<^verbatim>\<open>case sub := <-srv.subs\<close>: the subscription joins the set of its channel (made on first
  use), and a replay goroutine is started when \<^verbatim>\<open>srv.ReplayAll || len(sub.lastEventID) > 0\<close>
  and \<open>repos\<close> has the channel.
\<close>

definition handle_sub :: "subscription \<Rightarrow> server \<Rightarrow> server" where
  "handle_sub sub srv =
     (let srv1 = srv\<lparr>subs := (subs srv)(channel sub \<mapsto> insert sub (members srv (channel sub)))\<rparr> in
      if ReplayAll srv1 \<or> 0 < length (lastEventID sub) then
        (case repos srv1 (channel sub) of
           Some repo \<Rightarrow>
             srv1\<lparr>replays := replays srv1 @ [(repo (channel sub) (lastEventID sub), sub)]\<rparr>
         | None \<Rightarrow> srv1)
      else srv1)"

text \<open>
  \<^verbatim>\<open>case <-srv.quit: for _, sub := range subs { for s := range sub { close(s.out) } }; return\<close>.
  \<open>cs\<close> is the order in which the outer loop meets the keys of \<open>subs\<close>.
\<close>

fun close_all :: "subscription list \<Rightarrow> (nat \<Rightarrow> queue) \<Rightarrow> fault + (nat \<Rightarrow> queue)" where
  "close_all [] ch = Inr ch"
| "close_all (s # ss) ch =
     (case chan_close (ch (out s)) of
        Inl f \<Rightarrow> Inl f
      | Inr q \<Rightarrow> close_all ss (ch(out s := q)))"

fun handle_quit :: "subscription list list \<Rightarrow> server \<Rightarrow> fault + server" where
  "handle_quit [] srv = Inr (srv\<lparr>stopped := True\<rparr>)"
| "handle_quit (v # vs) srv =
     (case close_all v (chans srv) of
        Inl f \<Rightarrow> Inl f
      | Inr ch \<Rightarrow> handle_quit vs (srv\<lparr>chans := ch\<rparr>))"

definition quit_visits :: "server \<Rightarrow> string list \<Rightarrow> subscription list list \<Rightarrow> bool" where
  "quit_visits srv cs visits \<longleftrightarrow>
     distinct cs \<and> set cs = dom (subs srv) \<and> pub_visits srv cs visits"

subsection \<open>The replay dispatcher\<close>

text \<open>
  \<^verbatim>\<open>func replay(repo, sub) { for ev := range repo.Replay(...) { sub.out <- ev } }\<close>
  run on its own: it sends the items in order with plain sends and returns the items it
  has not sent yet with the queue, which is \<open>[]\<close> when the loop has ended and the item it
  is parked on first otherwise.
\<close>

fun replay :: "eventOrComment list \<Rightarrow> queue \<Rightarrow> fault + eventOrComment list \<times> queue" where
  "replay [] q = Inr ([], q)"
| "replay (ev # evs) q =
     (case chan_send ev q of
        Crash f \<Rightarrow> Inl f
      | Wait \<Rightarrow> Inr (ev # evs, q)
      | Proceed q' \<Rightarrow> replay evs q')"

subsection \<open>The goroutines together\<close>

text \<open>
  One action is one communication of the program. \<open>Register\<close>, \<open>Publish\<close>, \<open>Subscribe\<close>
  and \<open>Close\<close> are the public calls, each a rendezvous on an unbuffered channel followed by
  the broker's case body (for \<open>Subscribe\<close>, the handler first makes the subscription and
  its queue; for \<open>Close\<close>, \<^verbatim>\<open>markServerClosed\<close> follows). \<open>Unsubscribe\<close> is a handler's
  \<^verbatim>\<open>srv.unregister <- sub\<close>, \<open>Unregister\<close> the broker's receive of the oldest such request,
  \<open>Read\<close> a handler's receive from its queue, and \<open>ReplaySend i\<close> the next send of the
  \<open>i\<close>-th replay goroutine. The result is \<open>None\<close> when the action cannot happen in this
  state (its goroutine waits, or the visit orders are not orders of the sets).
\<close>

datatype action =
    Register registration
  | Publish outbound "subscription list list"
  | Subscribe string string
  | Unsubscribe subscription
  | Unregister
  | Close "string list" "subscription list list"
  | Read subscription
  | ReplaySend nat

fun step :: "action \<Rightarrow> server \<Rightarrow> (fault + server) option" where
  "step (Register reg) srv =
     (if stopped srv then None else Some (Inr (handle_registration reg srv)))"
| "step (Publish pub visits) srv =
     (if stopped srv \<or> \<not> pub_visits srv (channels pub) visits then None
      else Some (handle_pub (eventOrComment pub) visits srv))"
| "step (Subscribe c lid) srv =
     (if isClosed srv then Some (Inr srv)
      else if stopped srv then None
      else
        (let sub = \<lparr>channel = c, lastEventID = lid, out = next_chan srv\<rparr>;
             srv1 = srv\<lparr>chans := (chans srv)(next_chan srv := make_chan (BufferSize srv)),
                        next_chan := Suc (next_chan srv)\<rparr>
         in Some (Inr (handle_sub sub srv1))))"
| "step (Unsubscribe sub) srv =
     (if length (unregister srv) < unregister_cap
      then Some (Inr (srv\<lparr>unregister := unregister srv @ [sub]\<rparr>))
      else None)"
| "step Unregister srv =
     (if stopped srv then None
      else
        (case unregister srv of
           [] \<Rightarrow> None
         | sub # rest \<Rightarrow> Some (Inr (handle_unregister sub (srv\<lparr>unregister := rest\<rparr>)))))"
| "step (Close cs visits) srv =
     (if stopped srv \<or> \<not> quit_visits srv cs visits then None
      else
        (case handle_quit visits srv of
           Inl f \<Rightarrow> Some (Inl f)
         | Inr srv' \<Rightarrow> Some (Inr (srv'\<lparr>isClosed := True\<rparr>))))"
| "step (Read sub) srv =
     (case chan_recv (chans srv (out sub)) of
        Item v q \<Rightarrow> Some (Inr (srv\<lparr>chans := (chans srv)(out sub := q)\<rparr>))
      | EndOfStream \<Rightarrow> None
      | Empty \<Rightarrow> None)"
| "step (ReplaySend i) srv =
     (if length (replays srv) \<le> i then None
      else
        (case replays srv ! i of
           ([], sub) \<Rightarrow> None
         | (ev # evs, sub) \<Rightarrow>
             (case chan_send ev (chans srv (out sub)) of
                Crash f \<Rightarrow> Some (Inl f)
              | Wait \<Rightarrow> None
              | Proceed q \<Rightarrow>
                  Some (Inr (srv\<lparr>chans := (chans srv)(out sub := q),
                                  replays := (replays srv)[i := (evs, sub)]\<rparr>)))))"

text \<open>A run stops at the first panic or at a broker that will never move again.\<close>

fun run :: "action list \<Rightarrow> server \<Rightarrow> (fault + server) option" where
  "run [] srv = Some (Inr srv)"
| "run (a # as) srv =
     (case step a srv of
        None \<Rightarrow> None
      | Some (Inl f) \<Rightarrow> Some (Inl f)
      | Some (Inr srv') \<Rightarrow> run as srv')"

text \<open>
  A replay goroutine and the handler reading the same queue, under a schedule: \<open>True\<close>
  lets the dispatcher try its next send, \<open>False\<close> lets the reader try to take an item. The
  state is the items not yet sent, the queue, and the items the reader has taken.
\<close>

fun replay_read ::
  "bool list \<Rightarrow> eventOrComment list \<times> queue \<times> eventOrComment list \<Rightarrow>
   fault + eventOrComment list \<times> queue \<times> eventOrComment list" where
  "replay_read [] st = Inr st"
| "replay_read (True # sched) (pending, q, got) =
     (case pending of
        [] \<Rightarrow> replay_read sched (pending, q, got)
      | ev # evs \<Rightarrow>
          (case chan_send ev q of
             Crash f \<Rightarrow> Inl f
           | Wait \<Rightarrow> replay_read sched (pending, q, got)
           | Proceed q' \<Rightarrow> replay_read sched (evs, q', got)))"
| "replay_read (False # sched) (pending, q, got) =
     (case chan_recv q of
        Item v q' \<Rightarrow> replay_read sched (pending, q', got @ [v])
      | EndOfStream \<Rightarrow> replay_read sched (pending, q, got)
      | Empty \<Rightarrow> replay_read sched (pending, q, got))"

subsection \<open>What a run publishes and reads\<close>






subsection \<open>Concrete subscribers, items and requests\<close>

definition news_sub :: "nat \<Rightarrow> subscription" where
  "news_sub a = \<lparr>channel = ''news'', lastEventID = [], out = a\<rparr>"

definition resuming_sub :: "nat \<Rightarrow> subscription" where
  "resuming_sub a = \<lparr>channel = ''news'', lastEventID = ''41'', out = a\<rparr>"

definition ev1 :: eventOrComment where "ev1 = Event ''1'' ''update'' ''one''"
definition ev2 :: eventOrComment where "ev2 = Event ''2'' ''update'' ''two''"
definition ev3 :: eventOrComment where "ev3 = Event ''3'' ''update'' ''three''"
definition ev4 :: eventOrComment where "ev4 = Event ''4'' ''update'' ''four''"

definition to_news :: "eventOrComment \<Rightarrow> outbound" where
  "to_news ev = \<lparr>channels = [''news''], eventOrComment = ev\<rparr>"

definition to_news_twice :: "eventOrComment \<Rightarrow> outbound" where
  "to_news_twice ev = \<lparr>channels = [''news'', ''news''], eventOrComment = ev\<rparr>"

definition history :: repository where
  "history c lid = [ev1, ev2, ev3]"

definition news_history :: registration where
  "news_history = \<lparr>reg_channel = ''news'', repository = history\<rparr>"

text \<open>
  The state after one handler has subscribed to "news" on a fresh server with buffer size
  \<open>n\<close>, and a subscriber of another channel.
\<close>

definition joined :: "nat \<Rightarrow> server" where
  "joined n =
     NewServer\<lparr>BufferSize := n, subs := [''news'' \<mapsto> {news_sub 0}],
               chans := (chans NewServer)(0 := make_chan n), next_chan := 1\<rparr>"

definition sport_sub :: subscription where
  "sport_sub = \<lparr>channel = ''sport'', lastEventID = [], out = 7\<rparr>"

text \<open>Publish requests and handler reads on "news", and the state they lead to.\<close>

definition some_traffic :: "action list" where
  "some_traffic =
     [Publish (to_news ev1) [[news_sub 0]], Read (news_sub 0),
      Publish (to_news ev2) [[news_sub 0]], Publish (to_news ev3) [[news_sub 0]]]"

definition after_traffic :: server where
  "after_traffic =
     (joined 128)\<lparr>chans := (chans (joined 128))
                     (0 := \<lparr>buf = [ev2, ev3], cap = 128, closed = False\<rparr>)\<rparr>"

text \<open>The state after one publish request that lists "news" twice.\<close>

definition after_twice :: server where
  "after_twice =
     (joined 128)\<lparr>chans := (chans (joined 128))
                     (0 := \<lparr>buf = [ev1, ev1], cap = 128, closed = False\<rparr>)\<rparr>"

text \<open>
  With buffer size 1: the state after the subscriber of "news" has been sent one item it
  did not read and a second one that found its queue full.
\<close>

definition overflowed :: server where
  "overflowed =
     (joined 1)\<lparr>unregister := [news_sub 0],
                 chans := (chans (joined 1))(0 := \<lparr>buf = [ev1], cap = 1, closed = True\<rparr>)\<rparr>"

text \<open>
  The state after the history is registered for "news", a handler subscribes with a
  resume token and the replay goroutine has sent its three items.
\<close>

definition replayed :: server where
  "replayed =
     NewServer\<lparr>subs := [''news'' \<mapsto> {resuming_sub 0}], repos := [''news'' \<mapsto> history],
               chans := (chans NewServer)
                 (0 := \<lparr>buf = [ev1, ev2, ev3], cap = 128, closed = False\<rparr>),
               next_chan := 1, replays := [([], resuming_sub 0)]\<rparr>"

text \<open>
  With buffer size 2: the state after three publish requests to "news" that the subscriber
  did not read, and after the unregister request the third one queued has been served.
\<close>

definition disconnected :: server where
  "disconnected =
     (joined 2)\<lparr>subs := [''news'' \<mapsto> {}],
                 chans := (chans (joined 2))
                   (0 := \<lparr>buf = [ev1, ev2], cap = 2, closed = True\<rparr>)\<rparr>"

lemmas example_defs =
  news_sub_def resuming_sub_def ev1_def ev2_def ev3_def ev4_def to_news_def
  to_news_twice_def history_def news_history_def joined_def sport_sub_def
  some_traffic_def after_traffic_def after_twice_def overflowed_def replayed_def disconnected_def

lemmas broker_defs =
  NewServer_def make_chan_def unregister_cap_def chan_send_def chan_close_def chan_recv_def
  members_def handle_registration_def handle_unregister_def deliver_def handle_sub_def
  ranges_def pub_visits_def quit_visits_def Let_def

section \<open>Properties\<close>

subsection \<open>The unregister case\<close>

lemma members_handle_unregister:
  "members (handle_unregister sub srv) c =
     (if c = channel sub then members srv c - {sub} else members srv c)"
  by (simp add: handle_unregister_def members_def split: option.splits)

lemma chans_handle_unregister: "chans (handle_unregister sub srv) = chans srv"
  by (simp add: handle_unregister_def split: option.splits)

lemma handle_unregister_absent:
  "sub \<notin> members srv (channel sub) \<Longrightarrow> handle_unregister sub srv = srv"
  by (auto simp: handle_unregister_def members_def map_upd_triv split: option.splits)

text \<open>
  Claim C7. Serving an unregister request for a subscription that is no longer in the set
  of its channel (it was unregistered before, by the handler or after the slow-consumer
  path) changes nothing at all: the case body returns the state it was given, so no queue
  is closed and no set changes, and it has no way to fail. Serving the same request twice
  in a row gives the state the first one gave. In the loop, the only change is that the
  request leaves \<^verbatim>\<open>srv.unregister\<close>.
\<close>

theorem unregister_again_is_noop:
  "(sub \<notin> members srv (channel sub) \<longrightarrow> handle_unregister sub srv = srv) \<and>
   handle_unregister sub (handle_unregister sub srv) = handle_unregister sub srv \<and>
   (sub \<notin> members srv (channel sub) \<and> \<not> stopped srv \<and> unregister srv = sub # rest \<longrightarrow>
      step Unregister srv = Some (Inr (srv\<lparr>unregister := rest\<rparr>)))"
proof -
  have gone: "sub \<notin> members (handle_unregister sub srv) (channel sub)"
    by (simp add: members_handle_unregister)
  have twice: "handle_unregister sub (handle_unregister sub srv) = handle_unregister sub srv"
    using gone by (rule handle_unregister_absent)
  have loop: "step Unregister srv = Some (Inr (srv\<lparr>unregister := rest\<rparr>))"
    if "sub \<notin> members srv (channel sub)" "\<not> stopped srv" "unregister srv = sub # rest"
  proof -
    have "sub \<notin> members (srv\<lparr>unregister := rest\<rparr>) (channel sub)"
      using that(1) by (simp add: members_def)
    then have "handle_unregister sub (srv\<lparr>unregister := rest\<rparr>) = srv\<lparr>unregister := rest\<rparr>"
      by (rule handle_unregister_absent)
    then show ?thesis
      using that(2,3) by simp
  qed
  show ?thesis
    using twice loop by (simp add: handle_unregister_absent)
qed

text \<open>
  The theorem at a subscriber of "news" that joined and was unregistered once: the second
  request finds it gone and returns the same state.
\<close>

theorem unregister_again_is_noop_witness:
  "news_sub 0 \<notin> members (handle_unregister (news_sub 0) (handle_sub (news_sub 0) NewServer))
      (channel (news_sub 0)) \<and>
   handle_unregister (news_sub 0) (handle_unregister (news_sub 0) (handle_sub (news_sub 0) NewServer))
     = handle_unregister (news_sub 0) (handle_sub (news_sub 0) NewServer)"
  using unregister_again_is_noop
    [of "news_sub 0" "handle_unregister (news_sub 0) (handle_sub (news_sub 0) NewServer)" "[]"]
  by (simp add: members_handle_unregister)

lemma joined_reachable:
  "run [Subscribe ''news'' []] (NewServer\<lparr>BufferSize := n\<rparr>) = Some (Inr (joined n))"
  by (simp add: example_defs broker_defs)

text \<open>
  Claim C3, as amended. Serving an unregister request removes the subscription from the
  set of its channel and changes nothing else in the state. In particular the heap of
  queues is the same afterwards: the output queue of the subscription is not closed, it
  keeps its items and its open or closed state.
\<close>

theorem unregister_removes_only:
  "members (handle_unregister sub srv) c =
     (if c = channel sub then members srv c - {sub} else members srv c) \<and>
   chans (handle_unregister sub srv) = chans srv \<and>
   handle_unregister sub srv = srv\<lparr>subs := subs (handle_unregister sub srv)\<rparr>"
  by (simp add: members_handle_unregister chans_handle_unregister)
     (simp add: handle_unregister_def split: option.splits)

theorem unregister_removes_only_witness:
  "members (handle_unregister (news_sub 0) (joined 128)) ''news'' = {} \<and>
   chans (handle_unregister (news_sub 0) (joined 128)) 0 = make_chan 128"
  using unregister_removes_only [of "news_sub 0" "joined 128" "''news''"]
  by (simp add: example_defs broker_defs)

text \<open>
  Claim C3 as stated fails: the subscriber of "news" is active with an open queue, and
  after its unregister request has been served the queue is still open.
\<close>

theorem unregister_closes_queue_counterexample:
  "news_sub 0 \<in> members (joined 128) (channel (news_sub 0)) \<and>
   news_sub 0 \<notin> members (handle_unregister (news_sub 0) (joined 128)) (channel (news_sub 0)) \<and>
   \<not> closed (chans (handle_unregister (news_sub 0) (joined 128)) (out (news_sub 0)))"
  by (simp add: example_defs broker_defs)

subsection \<open>The subscribe case\<close>

text \<open>
  Claim C9. Serving a subscribe request always puts the subscription into the set of its
  channel and leaves the other sets, the queues and the repositories as they are. It
  starts one replay goroutine, for the items the channel's repository yields for the
  subscription's resume token, exactly when (\<^verbatim>\<open>ReplayAll\<close> is set or the token is not
  empty) and a repository is registered for the channel; otherwise it starts none. The
  case body has no way to fail, so a missing repository is not an error.
\<close>

theorem subscribe_joins_and_replays:
  "members (handle_sub sub srv) c =
     (if c = channel sub then insert sub (members srv c) else members srv c) \<and>
   chans (handle_sub sub srv) = chans srv \<and>
   repos (handle_sub sub srv) = repos srv \<and>
   replays (handle_sub sub srv) =
     (if (ReplayAll srv \<or> lastEventID sub \<noteq> []) \<and> repos srv (channel sub) \<noteq> None
      then replays srv @ [(the (repos srv (channel sub)) (channel sub) (lastEventID sub), sub)]
      else replays srv) \<and>
   ((length (replays (handle_sub sub srv)) = Suc (length (replays srv))) =
    ((ReplayAll srv \<or> lastEventID sub \<noteq> []) \<and> repos srv (channel sub) \<noteq> None))"
  by (auto simp: handle_sub_def members_def Let_def split: option.splits)

text \<open>
  With the history registered for "news", a subscriber with a resume token gets a replay
  goroutine holding the three historical items; one without a token gets none; and with no
  repository registered the subscriber with a token gets none either.
\<close>

theorem subscribe_joins_and_replays_witness:
  "replays (handle_sub (resuming_sub 1) (handle_registration news_history (joined 128)))
     = [([ev1, ev2, ev3], resuming_sub 1)] \<and>
   replays (handle_sub (news_sub 1) (handle_registration news_history (joined 128))) = [] \<and>
   replays (handle_sub (resuming_sub 1) (joined 128)) = [] \<and>
   members (handle_sub (resuming_sub 1) (joined 128)) ''news'' = {resuming_sub 1, news_sub 0}"
  using subscribe_joins_and_replays
          [of "resuming_sub 1" "handle_registration news_history (joined 128)" "''news''"]
        subscribe_joins_and_replays
          [of "news_sub 1" "handle_registration news_history (joined 128)" "''news''"]
        subscribe_joins_and_replays [of "resuming_sub 1" "joined 128" "''news''"]
  by (simp add: example_defs broker_defs)

subsection \<open>The publish case\<close>





lemma handle_pub_empty_visits:
  "\<forall>v \<in> set vs. v = [] \<Longrightarrow> handle_pub ev vs srv = Inr srv"
  by (induction vs) auto

lemma pub_visits_empty:
  "pub_visits srv cs vs \<Longrightarrow> \<forall>c \<in> set cs. members srv c = {} \<Longrightarrow> \<forall>v \<in> set vs. v = []"
  unfolding pub_visits_def
  by (induction cs vs rule: list_all2_induct) (auto simp: ranges_def)

text \<open>
  Claim C10. A publish request all of whose channels have no subscription (unknown to the
  broker, or known with an empty set) returns the state it was given, whatever the item,
  and an unregister request for a subscription whose channel is not a key of \<open>subs\<close>
  returns the state it was given. Neither can fail, and with the state both maps are
  unchanged.
\<close>

theorem publish_unregister_unknown_channel:
  "(pub_visits srv cs vs \<and> (\<forall>c \<in> set cs. members srv c = {}) \<longrightarrow>
      handle_pub ev vs srv = Inr srv) \<and>
   (subs srv (channel sub) = None \<longrightarrow> handle_unregister sub srv = srv)"
  using pub_visits_empty handle_pub_empty_visits
  by (auto simp: handle_unregister_def)

text \<open>
  With one subscriber on "news": publishing to "sport" and "weather", and unregistering a
  subscription of "sport", both leave the state as it was.
\<close>

theorem publish_unregister_unknown_channel_witness:
  "pub_visits (joined 128) [''sport'', ''weather''] [[], []] \<and>
   members (joined 128) ''sport'' = {} \<and> members (joined 128) ''weather'' = {} \<and>
   handle_pub ev1 [[], []] (joined 128) = Inr (joined 128) \<and>
   subs (joined 128) (channel sport_sub) = None \<and>
   handle_unregister sport_sub (joined 128) = joined 128"
  using publish_unregister_unknown_channel
          [of "joined 128" "[''sport'', ''weather'']" "[[], []]" ev1 sport_sub]
  by (simp add: example_defs broker_defs)

subsection \<open>What a subscriber's queue receives from publish requests\<close>



















subsection \<open>The replay dispatcher\<close>

text \<open>
  Run on its own against an open queue, the dispatcher sends as many items as the queue
  has room for, in order, and is then parked on the next one, holding the rest.
\<close>

lemma replay_alone:
  "\<not> closed q \<Longrightarrow>
   replay items q =
     Inr (drop (cap q - length (buf q)) items,
          q\<lparr>buf := buf q @ take (cap q - length (buf q)) items\<rparr>)"
proof (induction items arbitrary: q)
  case Nil
  then show ?case by simp
next
  case (Cons ev evs)
  show ?case
  proof (cases "length (buf q) < cap q")
    case True
    let ?q = "q\<lparr>buf := buf q @ [ev]\<rparr>"
    have send: "chan_send ev q = Proceed ?q"
      using True Cons.prems by (simp add: chan_send_def)
    have n: "cap q - length (buf q) = Suc (cap ?q - length (buf ?q))"
      using True by simp
    have "replay evs ?q =
        Inr (drop (cap ?q - length (buf ?q)) evs,
             ?q\<lparr>buf := buf ?q @ take (cap ?q - length (buf ?q)) evs\<rparr>)"
      using Cons.IH [of ?q] Cons.prems by simp
    then show ?thesis
      unfolding n using send by simp
  next
    case False
    then have "chan_send ev q = Wait"
      using Cons.prems by (simp add: chan_send_def)
    then show ?thesis using False by simp
  qed
qed

text \<open>
  Under any schedule of dispatcher and reader on an open queue nothing panics, and what
  the reader has taken, what the queue holds and what the dispatcher still has to send
  are together the items in their order: none is lost, none overtakes another.
\<close>

lemma replay_read_conserves:
  "\<not> closed q \<Longrightarrow>
   \<exists>pending q' got'.
     replay_read sched (items, q, got) = Inr (pending, q', got') \<and>
     got' @ buf q' @ pending = got @ buf q @ items"
proof (induction sched arbitrary: items q got)
  case Nil
  then show ?case by simp
next
  case (Cons turn sched)
  note q_open = Cons.prems
  note ih = Cons.IH
  show ?case
  proof (cases turn)
    case True
    show ?thesis
    proof (cases items)
      case Nil
      then show ?thesis using ih [OF q_open, of "[]" got] True by simp
    next
      case (Cons ev evs)
      show ?thesis
      proof (cases "length (buf q) < cap q")
        case room: True
        let ?q = "q\<lparr>buf := buf q @ [ev]\<rparr>"
        have send: "chan_send ev q = Proceed ?q"
          using room q_open by (simp add: chan_send_def)
        have "\<not> closed ?q" using q_open by simp
        from ih [OF this, of evs got] show ?thesis
          using True Cons send by simp
      next
        case False
        then have "chan_send ev q = Wait"
          using q_open by (simp add: chan_send_def)
        then show ?thesis
          using ih [OF q_open, of items got] True Cons by simp
      qed
    qed
  next
    case False
    show ?thesis
    proof (cases "buf q")
      case Nil
      then have "chan_recv q = Empty"
        using q_open by (simp add: chan_recv_def)
      then show ?thesis
        using ih [OF q_open, of items got] False by simp
    next
      case (Cons v vs)
      let ?q = "q\<lparr>buf := vs\<rparr>"
      have rc: "chan_recv q = Item v ?q"
        using Cons by (simp add: chan_recv_def)
      have "\<not> closed ?q" using q_open by simp
      from ih [OF this, of items "got @ [v]"] show ?thesis
        using False Cons rc by simp
    qed
  qed
qed

text \<open>
  With a reader that gets a turn before each send, every item is sent, however full the
  queue was at the start.
\<close>

lemma replay_read_drains:
  "\<not> closed q \<Longrightarrow> 0 < cap q \<Longrightarrow> length (buf q) \<le> cap q \<Longrightarrow>
   \<exists>q' got'.
     replay_read (concat (replicate (length items) [False, True])) (items, q, got)
       = Inr ([], q', got') \<and>
     got' @ buf q' = got @ buf q @ items"
proof (induction items arbitrary: q got)
  case Nil
  then show ?case by simp
next
  case (Cons ev evs)
  note q_ok = Cons.prems
  note ih = Cons.IH
  show ?case
  proof (cases "buf q")
    case Nil
    let ?q = "q\<lparr>buf := [ev]\<rparr>"
    have rc: "chan_recv q = Empty"
      using Nil q_ok by (simp add: chan_recv_def)
    have send: "chan_send ev q = Proceed ?q"
      using Nil q_ok by (simp add: chan_send_def)
    have "\<not> closed ?q" "0 < cap ?q" "length (buf ?q) \<le> cap ?q"
      using q_ok by simp_all
    from ih [OF this, of got] show ?thesis
      using rc send Nil by simp
  next
    case (Cons v vs)
    let ?r = "q\<lparr>buf := vs\<rparr>"
    let ?q = "q\<lparr>buf := vs @ [ev]\<rparr>"
    have rc: "chan_recv q = Item v ?r"
      using Cons by (simp add: chan_recv_def)
    have send: "chan_send ev ?r = Proceed ?q"
      using Cons q_ok by (simp add: chan_send_def)
    have "\<not> closed ?q" "0 < cap ?q" "length (buf ?q) \<le> cap ?q"
      using Cons q_ok by simp_all
    from ih [OF this, of "got @ [v]"] show ?thesis
      using rc send Cons by simp
  qed
qed

text \<open>
  Claim C8. For a replay dispatcher with any finite sequence of items and a queue that is
  open: (1) run on its own it enqueues the items in the source's order up to the room the
  queue has and then waits on the next item, keeping the rest, so when they fit (as three
  items do in a fresh queue) the queue holds exactly its old items followed by all of
  them; (2) under every interleaving with the reader it does not panic and each item is
  either taken by the reader, in the queue, or still waiting to be sent, in the source's
  order, so none is dropped for lack of room; (3) with a reader that takes an item before
  each send, all items are enqueued and read or buffered in order.
\<close>

theorem replay_blocking_in_order:
  assumes "\<not> closed q"
  shows "replay items q =
           Inr (drop (cap q - length (buf q)) items,
                q\<lparr>buf := buf q @ take (cap q - length (buf q)) items\<rparr>) \<and>
         (length (buf q) + length items \<le> cap q \<longrightarrow>
            replay items q = Inr ([], q\<lparr>buf := buf q @ items\<rparr>)) \<and>
         (\<exists>pending q' got'.
            replay_read sched (items, q, got) = Inr (pending, q', got') \<and>
            got' @ buf q' @ pending = got @ buf q @ items) \<and>
         (0 < cap q \<and> length (buf q) \<le> cap q \<longrightarrow>
            (\<exists>q' got'.
               replay_read (concat (replicate (length items) [False, True])) (items, q, got)
                 = Inr ([], q', got') \<and>
               got' @ buf q' = got @ buf q @ items))"
proof -
  have alone: "replay items q =
           Inr (drop (cap q - length (buf q)) items,
                q\<lparr>buf := buf q @ take (cap q - length (buf q)) items\<rparr>)"
    using assms by (rule replay_alone)
  have fits: "replay items q = Inr ([], q\<lparr>buf := buf q @ items\<rparr>)"
    if "length (buf q) + length items \<le> cap q"
    using alone that by simp
  show ?thesis
    using alone fits replay_read_conserves [OF assms] replay_read_drains [OF assms]
    by blast
qed

text \<open>
  The history of three items into a fresh queue of the default size: the queue holds the
  three in order. Into a queue of size 2: two are enqueued and the dispatcher waits on the
  third; once the reader has taken one, the third follows. And in the whole program:
  registering the history, subscribing with a resume token and three sends of the replay
  goroutine lead to the state \<open>replayed\<close>, whose queue holds the three items.
\<close>

theorem replay_blocking_in_order_witness:
  "replay [ev1, ev2, ev3] (make_chan 128)
     = Inr ([], \<lparr>buf = [ev1, ev2, ev3], cap = 128, closed = False\<rparr>) \<and>
   replay [ev1, ev2, ev3] (make_chan 2)
     = Inr ([ev3], \<lparr>buf = [ev1, ev2], cap = 2, closed = False\<rparr>) \<and>
   replay_read [True, True, True, False, True] ([ev1, ev2, ev3], make_chan 2, [])
     = Inr ([], \<lparr>buf = [ev2, ev3], cap = 2, closed = False\<rparr>, [ev1]) \<and>
   run [Register news_history, Subscribe ''news'' ''41'',
        ReplaySend 0, ReplaySend 0, ReplaySend 0] NewServer
     = Some (Inr replayed)"
proof -
  have h: "\<not> closed (make_chan n)" for n
    by (simp add: make_chan_def)
  show ?thesis
    using replay_blocking_in_order [OF h [of 128], of "[ev1, ev2, ev3]" "[]" "[]"]
          replay_blocking_in_order [OF h [of 2], of "[ev1, ev2, ev3]" "[]" "[]"]
    by (simp add: example_defs broker_defs)
qed

end
